theory Spec2Isabelle
  imports Complex_Main "HOL-Library.Word" "HOL-Library.Log_Nat" "HOL-Library.Monad_Syntax"
begin

unbundle bit_operations_syntax

section \<open>Go's float32, as far as process.go uses it\<close>

text \<open>
  process.go converts integers to \<^verbatim>\<open>float32\<close> and divides two \<^verbatim>\<open>float32\<close> values.
  A finite binary32 number is modelled by the rational number it denotes; an operation
  yields the exact result rounded to the nearest binary32 number, ties to the even
  significand (IEEE 754, which Go follows for conversions and arithmetic).
  A binary32 number is \<open>m * 2 ^ e\<close> with \<open>\<bar>m\<bar> < 2 ^ 24\<close> and \<open>- 149 \<le> e\<close>.
  Infinities and NaN are not modelled: the dividends of this program are at most
  \<open>2 ^ 31\<close> in magnitude and its divisors are the constants \<open>2 ^ 15\<close>, \<open>2 ^ 23\<close> and
  \<open>2 ^ 31\<close>, so no operation overflows or divides by zero.
\<close>

type_synonym float32 = rat

text \<open>Rounding a rational to the nearest integer, a tie to the even neighbour.\<close>

definition round_half_even :: "rat \<Rightarrow> int" where
  "round_half_even x =
     (let f = \<lfloor>x\<rfloor>; d = x - of_int f
      in if d < 1 / 2 then f
         else if 1 / 2 < d then f + 1
         else if even f then f else f + 1)"

text \<open>The binary exponent of a positive rational: \<open>2 ^ ilog2 x \<le> x < 2 ^ (ilog2 x + 1)\<close>.\<close>

definition ilog2 :: "rat \<Rightarrow> int" where
  "ilog2 x =
     (let (p, q) = quotient_of x;
          d = bitlen p - bitlen q
      in if 2 powi d \<le> x then d else d - 1)"

text \<open>
  The nearest binary32 number: 24 significant bits, the unit in the last place
  never below \<open>2 ^ - 149\<close> (the subnormal range).
\<close>

definition to_float32 :: "rat \<Rightarrow> float32" where
  "to_float32 x =
     (if x = 0 then 0
      else let e = max (ilog2 \<bar>x\<bar> - 23) (- 149)
           in of_int (round_half_even (x / 2 powi e)) * 2 powi e)"

text \<open>The conversions \<^verbatim>\<open>float32(sample)\<close> of an \<^verbatim>\<open>int16\<close> and of an \<^verbatim>\<open>int32\<close>.\<close>

definition float32_of_int16 :: "16 word \<Rightarrow> float32" where
  "float32_of_int16 w = to_float32 (of_int (sint w))"

definition float32_of_int32 :: "32 word \<Rightarrow> float32" where
  "float32_of_int32 w = to_float32 (of_int (sint w))"

text \<open>The quotient \<^verbatim>\<open>x / y\<close> of two \<^verbatim>\<open>float32\<close> values.\<close>

definition f32_div :: "float32 \<Rightarrow> float32 \<Rightarrow> float32" where
  "f32_div x y = to_float32 (x / y)"

section \<open>Slices\<close>

text \<open>
  An index expression \<^verbatim>\<open>s[i]\<close> of Go panics when \<open>i\<close> is out of range, on a read and
  on a write. A computation that may panic returns an option: \<open>None\<close> is the panic.
\<close>

definition slice_get :: "'a list \<Rightarrow> nat \<Rightarrow> 'a option" where
  "slice_get s i = (if i < length s then Some (s ! i) else None)"

definition slice_set :: "'a list \<Rightarrow> nat \<Rightarrow> 'a \<Rightarrow> 'a list option" where
  "slice_set s i v = (if i < length s then Some (s[i := v]) else None)"

section \<open>The sample decoder\<close>

type_synonym byte = "8 word"

text \<open>
  Each converter allocates \<^verbatim>\<open>make([]float32, length)\<close> (all zero) and fills it in a
  counting loop; the loop variable \<^verbatim>\<open>sample\<close> of the body is a function of the bytes
  read in that round.
\<close>

text \<open>\<^verbatim>\<open>int16(sample[i*2]) | int16(sample[i*2+1])<<8\<close>\<close>

definition sample16 :: "byte \<Rightarrow> byte \<Rightarrow> 16 word" where
  "sample16 b0 b1 = (ucast b0 :: 16 word) OR push_bit 8 (ucast b1 :: 16 word)"

function convert16_loop :: "byte list \<Rightarrow> nat \<Rightarrow> float32 \<Rightarrow> nat \<Rightarrow> float32 list \<Rightarrow> float32 list option" where
  "convert16_loop sample len divisor i float32Data =
     (if i < len
      then do {
             b0 \<leftarrow> slice_get sample (i * 2);
             b1 \<leftarrow> slice_get sample (i * 2 + 1);
             float32Data' \<leftarrow>
               slice_set float32Data i (f32_div (float32_of_int16 (sample16 b0 b1)) divisor);
             convert16_loop sample len divisor (i + 1) float32Data'
           }
      else Some float32Data)"
  by pat_completeness auto
termination
  by (relation "measure (\<lambda>(sample, len, divisor, i, float32Data). len - i)") auto

declare convert16_loop.simps [simp del]

definition convert16BitToFloat32 :: "byte list \<Rightarrow> float32 list option" where
  "convert16BitToFloat32 sample =
     (let len = length sample div 2;
          float32Data = replicate len (0 :: float32);
          divisor = to_float32 32768
      in convert16_loop sample len divisor 0 float32Data)"

text \<open>
  \<^verbatim>\<open>int32(sample[i*3]) | int32(sample[i*3+1])<<8 | int32(sample[i*3+2])<<16\<close>, then
  \<^verbatim>\<open>if (sample & 0x00800000) > 0 { sample |= ^0x00FFFFFF }\<close>. The untyped constant
  \<^verbatim>\<open>^0x00FFFFFF\<close> is the integer \<open>NOT 16777215 = - 16777216\<close>, converted to \<^verbatim>\<open>int32\<close>.
\<close>

definition sample24 :: "byte \<Rightarrow> byte \<Rightarrow> byte \<Rightarrow> 32 word" where
  "sample24 b0 b1 b2 =
     (let s = (ucast b0 :: 32 word)
                OR push_bit 8 (ucast b1 :: 32 word)
                OR push_bit 16 (ucast b2 :: 32 word)
      in if 0 < sint (s AND 0x00800000) then s OR word_of_int (NOT 0x00FFFFFF) else s)"

function convert24_loop :: "byte list \<Rightarrow> nat \<Rightarrow> float32 \<Rightarrow> nat \<Rightarrow> float32 list \<Rightarrow> float32 list option" where
  "convert24_loop sample len divisor i float32Data =
     (if i < len
      then do {
             b0 \<leftarrow> slice_get sample (i * 3);
             b1 \<leftarrow> slice_get sample (i * 3 + 1);
             b2 \<leftarrow> slice_get sample (i * 3 + 2);
             float32Data' \<leftarrow>
               slice_set float32Data i (f32_div (float32_of_int32 (sample24 b0 b1 b2)) divisor);
             convert24_loop sample len divisor (i + 1) float32Data'
           }
      else Some float32Data)"
  by pat_completeness auto
termination
  by (relation "measure (\<lambda>(sample, len, divisor, i, float32Data). len - i)") auto

declare convert24_loop.simps [simp del]

definition convert24BitToFloat32 :: "byte list \<Rightarrow> float32 list option" where
  "convert24BitToFloat32 sample =
     (let len = length sample div 3;
          float32Data = replicate len (0 :: float32);
          divisor = to_float32 8388608
      in convert24_loop sample len divisor 0 float32Data)"

text \<open>
  \<^verbatim>\<open>int32(sample[i*4]) | int32(sample[i*4+1])<<8 | int32(sample[i*4+2])<<16 | int32(sample[i*4+3])<<24\<close>
\<close>

definition sample32 :: "byte \<Rightarrow> byte \<Rightarrow> byte \<Rightarrow> byte \<Rightarrow> 32 word" where
  "sample32 b0 b1 b2 b3 =
     (ucast b0 :: 32 word)
       OR push_bit 8 (ucast b1 :: 32 word)
       OR push_bit 16 (ucast b2 :: 32 word)
       OR push_bit 24 (ucast b3 :: 32 word)"

function convert32_loop :: "byte list \<Rightarrow> nat \<Rightarrow> float32 \<Rightarrow> nat \<Rightarrow> float32 list \<Rightarrow> float32 list option" where
  "convert32_loop sample len divisor i float32Data =
     (if i < len
      then do {
             b0 \<leftarrow> slice_get sample (i * 4);
             b1 \<leftarrow> slice_get sample (i * 4 + 1);
             b2 \<leftarrow> slice_get sample (i * 4 + 2);
             b3 \<leftarrow> slice_get sample (i * 4 + 3);
             float32Data' \<leftarrow>
               slice_set float32Data i (f32_div (float32_of_int32 (sample32 b0 b1 b2 b3)) divisor);
             convert32_loop sample len divisor (i + 1) float32Data'
           }
      else Some float32Data)"
  by pat_completeness auto
termination
  by (relation "measure (\<lambda>(sample, len, divisor, i, float32Data). len - i)") auto

declare convert32_loop.simps [simp del]

definition convert32BitToFloat32 :: "byte list \<Rightarrow> float32 list option" where
  "convert32BitToFloat32 sample =
     (let len = length sample div 4;
          float32Data = replicate len (0 :: float32);
          divisor = to_float32 2147483648
      in convert32_loop sample len divisor 0 float32Data)"

text \<open>
  Go's \<^verbatim>\<open>error\<close> values of this file: \<^verbatim>\<open>errors.New(msg)\<close>, and
  \<^verbatim>\<open>fmt.Errorf(format, operands..., err)\<close> whose \<^verbatim>\<open>%w\<close> verb wraps \<^verbatim>\<open>err\<close>
  (the format string and the integer operands are kept unformatted).
\<close>

datatype error = errors_New string | fmt_Errorf string "int list" error

text \<open>The pair \<^verbatim>\<open>([][]float32, error)\<close>: either the error or the channels.\<close>

definition ConvertToFloat32 :: "byte list \<Rightarrow> int \<Rightarrow> (error + float32 list list) option" where
  "ConvertToFloat32 sample bitDepth =
     (if bitDepth = 16 then do { ch \<leftarrow> convert16BitToFloat32 sample; Some (Inr [ch]) }
      else if bitDepth = 24 then do { ch \<leftarrow> convert24BitToFloat32 sample; Some (Inr [ch]) }
      else if bitDepth = 32 then do { ch \<leftarrow> convert32BitToFloat32 sample; Some (Inr [ch]) }
      else Some (Inl (errors_New ''unsupported audio bit depth'')))"

text \<open>The sample that the loops compute in round \<open>j\<close>, for the statements below.\<close>

abbreviation sample16_at :: "byte list \<Rightarrow> nat \<Rightarrow> 16 word" where
  "sample16_at sample j \<equiv> sample16 (sample ! (j * 2)) (sample ! (j * 2 + 1))"

abbreviation sample24_at :: "byte list \<Rightarrow> nat \<Rightarrow> 32 word" where
  "sample24_at sample j \<equiv> sample24 (sample ! (j * 3)) (sample ! (j * 3 + 1)) (sample ! (j * 3 + 2))"

abbreviation sample32_at :: "byte list \<Rightarrow> nat \<Rightarrow> 32 word" where
  "sample32_at sample j \<equiv>
     sample32 (sample ! (j * 4)) (sample ! (j * 4 + 1)) (sample ! (j * 4 + 2)) (sample ! (j * 4 + 3))"

section \<open>Processing one buffer\<close>

text \<open>
  \<^verbatim>\<open>birdnet.Result\<close> and \<^verbatim>\<open>queue.Results\<close> are declared in packages that are not among
  the sources. A detection has the two fields that process.go reads (\<^verbatim>\<open>Species\<close>,
  \<^verbatim>\<open>Confidence\<close>); the message has the five fields that \<^verbatim>\<open>ProcessData\<close> fills in.
  A \<^verbatim>\<open>time.Time\<close> and a \<^verbatim>\<open>time.Duration\<close> are integers (nanoseconds).
\<close>

record Result =
  Species :: string
  Confidence :: float32

record queue_Results =
  StartTime :: int
  ElapsedTime :: int
  PCMdata :: "byte list"
  Results :: "Result list"
  Source :: string

text \<open>
  What \<^verbatim>\<open>ProcessData\<close> reads and changes besides its arguments: the wall clock read by
  \<^verbatim>\<open>time.Now\<close> and \<^verbatim>\<open>time.Since\<close>, the object behind the pointer \<^verbatim>\<open>bn\<close>, the values
  buffered in the channel \<^verbatim>\<open>queue.ResultsQueue\<close> (oldest first), and the lines written
  by \<^verbatim>\<open>log.Println\<close>.
\<close>

record 'bn world =
  clock :: int
  birdnet :: 'bn
  ResultsQueue :: "queue_Results list"
  log_lines :: "string list"

text \<open>
  What the surroundings fix for one call: the constant \<^verbatim>\<open>conf.BitDepth\<close>, the capacity
  of the channel, the method \<^verbatim>\<open>Predict\<close> of the inference engine (it may fail, and it
  may change the engine), and the time that passes while \<^verbatim>\<open>ConvertToFloat32\<close> and
  while \<^verbatim>\<open>Predict\<close> run. None of them is in the sources, so each is a parameter.

  The channel \<^verbatim>\<open>queue.ResultsQueue\<close> is a buffered one, \<^verbatim>\<open>make(chan *Results, n)\<close> with
  \<open>n = queue_cap\<close> and \<open>0 < n\<close>: the dispatch queue is a FIFO of fixed capacity. A send on
  a buffered channel can proceed exactly when its buffer has room. An unbuffered channel
  (\<open>queue_cap = 0\<close>), where a send proceeds exactly when a receiver is waiting, is
  outside the model: the statements about what a send does assume \<open>0 < queue_cap\<close>.
\<close>

record 'bn env =
  BitDepth :: int
  queue_cap :: nat
  Predict :: "'bn \<Rightarrow> float32 list list \<Rightarrow> (error + Result list) \<times> 'bn"
  convert_time :: nat
  predict_time :: nat

text \<open>\<^verbatim>\<open>time.Since(startTime)\<close>: the clock now, minus the earlier reading.\<close>

definition logProcessingTime :: "int \<Rightarrow> 'bn world \<Rightarrow> int" where
  "logProcessingTime startTime w = (let elapsedTime = clock w - startTime in elapsedTime)"

text \<open>
  The \<^verbatim>\<open>select\<close> with a \<^verbatim>\<open>default\<close> branch never waits: the send is taken when the
  buffer has room, otherwise the default branch logs one line. Either branch falls
  through to \<^verbatim>\<open>return nil\<close>. The channel is a buffered one (\<open>0 < queue_cap\<close>), the
  fixed-capacity queue of the specification; handing a value to a receiver that waits
  on an unbuffered channel is not modelled. The call panics when the decoder does.
\<close>

definition ProcessData ::
  "'bn env \<Rightarrow> byte list \<Rightarrow> int \<Rightarrow> string \<Rightarrow> 'bn world \<Rightarrow> (error option \<times> 'bn world) option" where
  "ProcessData env data startTime source w =
     (let predictStart = clock w;
          w1 = w\<lparr>clock := clock w + int (convert_time env)\<rparr>
      in do {
           converted \<leftarrow> ConvertToFloat32 data (BitDepth env);
           case converted of
             Inl err \<Rightarrow>
               Some (Some (fmt_Errorf ''error converting %v bit PCM data to float32: %w''
                             [BitDepth env] err), w1)
           | Inr sampleData \<Rightarrow>
               (case Predict env (birdnet w1) sampleData of
                  (res, bn') \<Rightarrow>
                    let w2 = w1\<lparr>clock := clock w1 + int (predict_time env), birdnet := bn'\<rparr>
                    in case res of
                         Inl err \<Rightarrow>
                           Some (Some (fmt_Errorf ''error predicting species: %w'' [] err), w2)
                       | Inr results \<Rightarrow>
                           let elapsedTime = logProcessingTime predictStart w2;
                               resultsMessage =
                                 \<lparr>StartTime = startTime, ElapsedTime = elapsedTime,
                                  PCMdata = data, Results = results, Source = source\<rparr>
                           in if length (ResultsQueue w2) < queue_cap env
                              then Some (None, w2\<lparr>ResultsQueue := ResultsQueue w2 @ [resultsMessage]\<rparr>)
                              else Some (None, w2\<lparr>log_lines := log_lines w2 @ [''Queue is full!'']\<rparr>))
         })"

text \<open>
  For the examples: an inference engine that detects nothing, one that fails, and a
  16-bit set-up with room for one message in the channel.
\<close>

definition silent_engine :: "unit \<Rightarrow> float32 list list \<Rightarrow> (error + Result list) \<times> unit" where
  "silent_engine bn sampleData = (Inr [], bn)"

definition failing_engine :: "unit \<Rightarrow> float32 list list \<Rightarrow> (error + Result list) \<times> unit" where
  "failing_engine bn sampleData = (Inl (errors_New ''inference failed''), bn)"

definition example_env :: "unit env" where
  "example_env =
     \<lparr>BitDepth = 16, queue_cap = 1, Predict = silent_engine, convert_time = 5, predict_time = 7\<rparr>"

definition example_world :: "unit world" where
  "example_world = \<lparr>clock = 100, birdnet = (), ResultsQueue = [], log_lines = []\<rparr>"

section \<open>Properties of the float32 operations\<close>

lemma round_half_even_of_int: "round_half_even (of_int n) = n"
  by (simp add: round_half_even_def)

lemma round_half_even_le: "x \<le> of_int n \<Longrightarrow> round_half_even x \<le> n"
proof -
  assume h: "x \<le> of_int n"
  show ?thesis
  proof (cases "x = of_int n")
    case True
    then show ?thesis by (simp add: round_half_even_def)
  next
    case False
    with h have "x < of_int n" by simp
    then have "\<lfloor>x\<rfloor> < n" by (simp add: floor_less_iff)
    then show ?thesis by (simp add: round_half_even_def Let_def)
  qed
qed

lemma round_half_even_ge: "of_int n \<le> x \<Longrightarrow> n \<le> round_half_even x"
proof -
  assume "of_int n \<le> x"
  then have "n \<le> \<lfloor>x\<rfloor>" by (simp add: le_floor_iff)
  then show ?thesis by (simp add: round_half_even_def Let_def)
qed

lemma ilog2_bounds:
  assumes "0 < x"
  shows "2 powi ilog2 x \<le> x" and "x < 2 powi (ilog2 x + 1)"
proof -
  obtain p q where pq: "quotient_of x = (p, q)" by (cases "quotient_of x")
  then have q: "0 < q" and x: "x = of_int p / of_int q"
    using quotient_of_denom_pos quotient_of_div by blast+
  with assms have p: "0 < p"
    by (simp add: zero_less_divide_iff)
  let ?a = "bitlen p" and ?b = "bitlen q"
  have a1: "1 \<le> ?a" and b1: "1 \<le> ?b" using p q bitlen_eq_zero_iff[of p] bitlen_eq_zero_iff[of q] bitlen_nonneg[of p] bitlen_nonneg[of q] by linarith+
  have pb: "2 ^ nat (?a - 1) \<le> p" "p < 2 ^ nat ?a" using bitlen_bounds[OF p] by auto
  have qb: "2 ^ nat (?b - 1) \<le> q" "q < 2 ^ nat ?b" using bitlen_bounds[OF q] by auto
  have P1: "(2::rat) powi (?a - 1) \<le> of_int p"
  proof -
    have "(of_int (2 ^ nat (?a - 1)) :: rat) \<le> of_int p" using pb(1) by (simp only: of_int_le_iff)
    then show ?thesis using a1 by (simp add: power_int_def)
  qed
  have P2: "of_int p < (2::rat) powi ?a"
  proof -
    have "(of_int p :: rat) < of_int (2 ^ nat ?a)" using pb(2) by (simp only: of_int_less_iff)
    then show ?thesis using a1 by (simp add: power_int_def)
  qed
  have Q1: "(2::rat) powi (?b - 1) \<le> of_int q"
  proof -
    have "(of_int (2 ^ nat (?b - 1)) :: rat) \<le> of_int q" using qb(1) by (simp only: of_int_le_iff)
    then show ?thesis using b1 by (simp add: power_int_def)
  qed
  have Q2: "of_int q < (2::rat) powi ?b"
  proof -
    have "(of_int q :: rat) < of_int (2 ^ nat ?b)" using qb(2) by (simp only: of_int_less_iff)
    then show ?thesis using b1 by (simp add: power_int_def)
  qed
  have qpos: "(0::rat) < of_int q" using q by simp
  have lo: "(2::rat) powi (?a - ?b - 1) < x"
  proof -
    have "(2::rat) powi (?a - ?b - 1) * of_int q < 2 powi (?a - ?b - 1) * 2 powi ?b"
      using Q2 by (simp add: zero_less_power_int)
    also have "\<dots> = 2 powi (?a - 1)"
      by (simp add: power_int_add[symmetric])
    also have "\<dots> \<le> of_int p" by (rule P1)
    finally show ?thesis using qpos by (simp add: x pos_less_divide_eq)
  qed
  have hi: "x < (2::rat) powi (?a - ?b + 1)"
  proof -
    have "of_int p < (2::rat) powi ?a" by (rule P2)
    also have "\<dots> = 2 powi (?a - ?b + 1) * 2 powi (?b - 1)"
      by (simp add: power_int_add[symmetric])
    also have "\<dots> \<le> 2 powi (?a - ?b + 1) * of_int q"
      using Q1 by (simp add: zero_less_power_int)
    finally show ?thesis using qpos by (simp add: x pos_divide_less_eq)
  qed
  show "2 powi ilog2 x \<le> x"
    using lo by (auto simp: ilog2_def pq Let_def)
  show "x < 2 powi (ilog2 x + 1)"
    using hi by (auto simp: ilog2_def pq Let_def not_le)
qed

lemma powi2_less_imp_less: "(2::rat) powi a < 2 powi b \<Longrightarrow> a < b"
  using power_int_increasing[of b a "2::rat"] by (cases "a < b") auto

lemma to_float32_exact:
  assumes m: "\<bar>m\<bar> < 2 ^ 24" and e: "- 149 \<le> e"
  shows "to_float32 (of_int m * 2 powi e) = of_int m * 2 powi e"
proof (cases "m = 0")
  case True
  then show ?thesis by (simp add: to_float32_def)
next
  case False
  let ?x = "of_int m * (2::rat) powi e"
  have x0: "?x \<noteq> 0" using False by simp
  then have xpos: "0 < \<bar>?x\<bar>" by simp
  let ?k = "ilog2 \<bar>?x\<bar>"
  let ?e' = "max (?k - 23) (- 149)"
  have "2 powi ?k \<le> \<bar>?x\<bar>" using ilog2_bounds(1)[OF xpos] .
  also have "\<bar>?x\<bar> = of_int \<bar>m\<bar> * 2 powi e" by (simp add: abs_mult)
  also have "\<dots> < 2 ^ 24 * 2 powi e"
  proof -
    have "(of_int \<bar>m\<bar> :: rat) < of_int (2 ^ 24)" using m by (simp only: of_int_less_iff)
    then show ?thesis by (simp add: zero_less_power_int)
  qed
  also have "\<dots> = 2 powi (24 + e)" by (simp add: power_int_add)
  finally have "?k < 24 + e" by (rule powi2_less_imp_less)
  with e have le: "?e' \<le> e" by simp
  have "?x / 2 powi ?e' = of_int m * 2 powi (e - ?e')"
    by (simp add: power_int_diff)
  also have "\<dots> = of_int (m * 2 ^ nat (e - ?e'))"
    using le by (simp add: power_int_def)
  finally have "round_half_even (?x / 2 powi ?e') = m * 2 ^ nat (e - ?e')"
    by (simp only: round_half_even_of_int)
  then have "to_float32 ?x = of_int (m * 2 ^ nat (e - ?e')) * 2 powi ?e'"
    using x0 by (simp add: to_float32_def Let_def)
  also have "\<dots> = of_int m * (2 powi (e - ?e') * 2 powi ?e')"
    using le by (simp add: power_int_def)
  also have "2 powi (e - ?e') * (2::rat) powi ?e' = 2 powi e"
    by (simp add: power_int_add[symmetric])
  finally show ?thesis .
qed

lemma to_float32_of_int_exact: "\<bar>n\<bar> < 2 ^ 24 \<Longrightarrow> to_float32 (of_int n) = of_int n"
  using to_float32_exact[of n 0] by simp

lemma to_float32_pow2: "k \<le> 127 \<Longrightarrow> to_float32 (2 ^ k) = 2 ^ k"
  using to_float32_exact[of 1 "int k"] by simp

lemma to_float32_div_pow2_exact:
  assumes "\<bar>m\<bar> < 2 ^ 24" "- 149 \<le> e" "e - int k \<ge> - 149"
  shows "to_float32 (of_int m * 2 powi e / 2 ^ k) = of_int m * 2 powi e / 2 ^ k"
proof -
  have "of_int m * 2 powi e / 2 ^ k = of_int m * (2::rat) powi (e - int k)"
    by (simp add: power_int_diff)
  then show ?thesis using to_float32_exact[of m "e - int k"] assms by simp
qed

text \<open>Rounding never crosses a power of two.\<close>

lemma to_float32_abs_le:
  assumes x: "\<bar>x\<bar> \<le> 2 powi j" and j: "- 126 \<le> j"
  shows "\<bar>to_float32 x\<bar> \<le> 2 powi j"
proof (cases "x = 0")
  case True
  then show ?thesis by (simp add: to_float32_def)
next
  case False
  then have xpos: "0 < \<bar>x\<bar>" by simp
  define e where "e = max (ilog2 \<bar>x\<bar> - 23) (- 149)"
  define N :: int where "N = 2 ^ nat (j - e)"
  define r where "r = round_half_even (x / 2 powi e)"
  have val: "to_float32 x = of_int r * 2 powi e"
    using False by (simp add: to_float32_def Let_def e_def r_def)
  have "(2::rat) powi ilog2 \<bar>x\<bar> \<le> 2 powi j" using ilog2_bounds(1)[OF xpos] x by simp
  then have "ilog2 \<bar>x\<bar> \<le> j"
    using power_int_strict_increasing[of j "ilog2 \<bar>x\<bar>" "2::rat"] by (cases "ilog2 \<bar>x\<bar> \<le> j") auto
  with j have le: "e \<le> j" by (simp add: e_def)
  have pos: "(0::rat) < 2 powi e" by (simp add: zero_less_power_int)
  have "(of_int N :: rat) = 2 powi (j - e)"
    using le by (simp add: N_def power_int_def)
  also have "\<dots> = 2 powi j / 2 powi e" by (rule power_int_diff) simp
  finally have N: "(of_int N :: rat) = 2 powi j / 2 powi e" .
  have "x \<le> 2 powi j" "- (2 powi j) \<le> x" using x by (simp_all add: abs_le_iff)
  then have "x / 2 powi e \<le> 2 powi j / 2 powi e" "(- (2 powi j)) / 2 powi e \<le> x / 2 powi e"
    using pos by (simp_all only: divide_right_mono less_imp_le)
  then have "x / 2 powi e \<le> of_int N" "of_int (- N) \<le> x / 2 powi e"
    by (simp_all only: N of_int_minus minus_divide_left)
  then have "r \<le> N" "- N \<le> r"
    unfolding r_def by (simp_all only: round_half_even_le round_half_even_ge)
  then have "\<bar>r\<bar> \<le> N" by simp
  then have "(of_int \<bar>r\<bar> :: rat) \<le> of_int N" by (simp only: of_int_le_iff)
  then have "of_int \<bar>r\<bar> * (2::rat) powi e \<le> of_int N * 2 powi e"
    using pos by (simp only: mult_le_cancel_right_pos)
  also have "of_int N * 2 powi e = (2::rat) powi j" using pos by (simp add: N)
  finally show ?thesis using pos by (simp add: val abs_mult)
qed

text \<open>The conversion of an integer is an integer multiple of a power of two, with a 24-bit significand.\<close>

lemma to_float32_of_int_repr:
  "\<exists>M E. to_float32 (of_int n) = of_int M * 2 powi E \<and> \<bar>M\<bar> < 2 ^ 24 \<and> 0 \<le> E"
proof (cases "\<bar>n\<bar> < 2 ^ 24")
  case True
  then have "to_float32 (of_int n) = of_int n * 2 powi 0" by (simp add: to_float32_of_int_exact)
  with True show ?thesis by blast
next
  case False
  define x :: rat where "x = of_int n"
  have big: "(2::rat) ^ 24 \<le> \<bar>x\<bar>"
  proof -
    have "(2::int) ^ 24 \<le> \<bar>n\<bar>" using False by simp
    then have "(of_int (2 ^ 24) :: rat) \<le> of_int \<bar>n\<bar>" by (simp only: of_int_le_iff)
    then show ?thesis by (simp add: x_def)
  qed
  then have x0: "x \<noteq> 0" and xpos: "0 < \<bar>x\<bar>" by auto
  define e where "e = ilog2 \<bar>x\<bar> - 23"
  define r where "r = round_half_even (x / 2 powi e)"
  have "(2::rat) powi 24 < 2 powi (ilog2 \<bar>x\<bar> + 1)"
    using big ilog2_bounds(2)[OF xpos] by simp
  then have k: "24 \<le> ilog2 \<bar>x\<bar>" using powi2_less_imp_less[of 24 "ilog2 \<bar>x\<bar> + 1"] by simp
  then have e: "max (ilog2 \<bar>x\<bar> - 23) (- 149) = e" "1 \<le> e" by (simp_all add: e_def)
  have val: "to_float32 x = of_int r * 2 powi e"
    using x0 by (simp add: to_float32_def Let_def e(1) r_def)
  have pos: "(0::rat) < 2 powi e" by (simp add: zero_less_power_int)
  have "ilog2 \<bar>x\<bar> + 1 = e + 24" by (simp add: e_def)
  then have "\<bar>x\<bar> < 2 powi (e + 24)" using ilog2_bounds(2)[OF xpos] by (simp only:)
  also have "\<dots> = 2 powi e * 2 powi 24" by (rule power_int_add) simp
  finally have "\<bar>x\<bar> < 2 powi e * 2 ^ 24" by simp
  then have "x < 2 ^ 24 * 2 powi e" "- (2 ^ 24) * 2 powi e < x"
    by (simp_all add: abs_less_iff mult.commute)
  then have "x / 2 powi e \<le> 2 ^ 24" "- (2 ^ 24) \<le> x / 2 powi e"
    using pos by (simp_all only: pos_divide_le_eq pos_le_divide_eq less_imp_le)
  then have "x / 2 powi e \<le> of_int (2 ^ 24)" "of_int (- (2 ^ 24)) \<le> x / 2 powi e"
    by simp_all
  then have r: "r \<le> 2 ^ 24" "- (2 ^ 24) \<le> r"
    unfolding r_def by (simp_all only: round_half_even_le round_half_even_ge)
  show ?thesis
  proof (cases "\<bar>r\<bar> < 2 ^ 24")
    case True
    with val e(2) show ?thesis unfolding x_def by (intro exI[of _ r] exI[of _ e]) simp
  next
    case False
    with r have "r = 2 ^ 24 \<or> r = - (2 ^ 24)" by linarith
    moreover have "(2::rat) powi (e + 1) = 2 powi e * 2 powi 1" by (rule power_int_add) simp
    ultimately have "to_float32 x = of_int (r div 2) * 2 powi (e + 1) \<and> \<bar>r div 2\<bar> < 2 ^ 24"
      using val by auto
    with e(2) show ?thesis unfolding x_def by (intro exI[of _ "r div 2"] exI[of _ "e + 1"]) simp
  qed
qed

lemma f32_div_int_pow2:
  assumes "k \<le> 127"
  shows "f32_div (to_float32 (of_int n)) (to_float32 (2 ^ k)) = to_float32 (of_int n) / 2 ^ k"
proof -
  obtain M E where r: "to_float32 (of_int n) = of_int M * 2 powi E" "\<bar>M\<bar> < 2 ^ 24" "0 \<le> E"
    using to_float32_of_int_repr by blast
  have "to_float32 (of_int M * 2 powi E / 2 ^ k) = of_int M * 2 powi E / 2 ^ k"
    using r(2,3) assms by (intro to_float32_div_pow2_exact) simp_all
  then show ?thesis using assms by (simp add: f32_div_def to_float32_pow2 r(1))
qed

section \<open>The decoding loops as maps\<close>

text \<open>
  Every index that a loop reads or writes is in range, so no converter panics; each
  returns the list of the samples of the rounds \<open>0\<close> to \<open>len - 1\<close>.
\<close>

lemma fill_step: "i < length xs \<Longrightarrow> take (Suc i) (xs[i := v]) = take i xs @ [v]"
  by (simp add: take_Suc_conv_app_nth)

lemma convert16_loop_eq:
  "i \<le> len \<Longrightarrow> length float32Data = len \<Longrightarrow> len \<le> length sample div 2 \<Longrightarrow>
   convert16_loop sample len divisor i float32Data =
     Some (take i float32Data @ map (\<lambda>j. f32_div (float32_of_int16 (sample16_at sample j)) divisor) [i..<len])"
proof (induction sample len divisor i float32Data rule: convert16_loop.induct)
  case (1 sample len divisor i float32Data)
  show ?case
  proof (cases "i < len")
    case True
    let ?v = "f32_div (float32_of_int16 (sample16_at sample i)) divisor"
    have "i * 2 + 1 < length sample" using True "1.prems"(3) by simp
    then have reads: "slice_get sample (i * 2) = Some (sample ! (i * 2))" "slice_get sample (i * 2 + 1) = Some (sample ! (i * 2 + 1))"
      by (simp_all add: slice_get_def)
    have stored: "slice_set float32Data i ?v = Some (float32Data[i := ?v])"
      using True "1.prems"(2) by (simp add: slice_set_def)
    have "convert16_loop sample len divisor i float32Data =
          convert16_loop sample len divisor (i + 1) (float32Data[i := ?v])"
      using True reads stored by (subst convert16_loop.simps) simp
    also have "\<dots> = Some (take (i + 1) (float32Data[i := ?v]) @ map (\<lambda>j. f32_div (float32_of_int16 (sample16_at sample j)) divisor) [i + 1..<len])"
      using True "1.prems" reads stored by (intro "1.IH") simp_all
    also have "take (i + 1) (float32Data[i := ?v]) @ map (\<lambda>j. f32_div (float32_of_int16 (sample16_at sample j)) divisor) [i + 1..<len]
        = take i float32Data @ map (\<lambda>j. f32_div (float32_of_int16 (sample16_at sample j)) divisor) [i..<len]"
      using True "1.prems" by (simp add: fill_step upt_conv_Cons)
    finally show ?thesis .
  next
    case False
    with "1.prems" have "i = len" by simp
    then show ?thesis using "1.prems" by (subst convert16_loop.simps) simp
  qed
qed

lemma convert16BitToFloat32_map:
  "convert16BitToFloat32 sample =
     Some (map (\<lambda>j. f32_div (float32_of_int16 (sample16_at sample j)) (to_float32 32768)) [0..<length sample div 2])"
  by (simp add: convert16BitToFloat32_def Let_def convert16_loop_eq)

lemma convert24_loop_eq:
  "i \<le> len \<Longrightarrow> length float32Data = len \<Longrightarrow> len \<le> length sample div 3 \<Longrightarrow>
   convert24_loop sample len divisor i float32Data =
     Some (take i float32Data @ map (\<lambda>j. f32_div (float32_of_int32 (sample24_at sample j)) divisor) [i..<len])"
proof (induction sample len divisor i float32Data rule: convert24_loop.induct)
  case (1 sample len divisor i float32Data)
  show ?case
  proof (cases "i < len")
    case True
    let ?v = "f32_div (float32_of_int32 (sample24_at sample i)) divisor"
    have "i * 3 + 2 < length sample" using True "1.prems"(3) by simp
    then have reads: "slice_get sample (i * 3) = Some (sample ! (i * 3))" "slice_get sample (i * 3 + 1) = Some (sample ! (i * 3 + 1))" "slice_get sample (i * 3 + 2) = Some (sample ! (i * 3 + 2))"
      by (simp_all add: slice_get_def)
    have stored: "slice_set float32Data i ?v = Some (float32Data[i := ?v])"
      using True "1.prems"(2) by (simp add: slice_set_def)
    have "convert24_loop sample len divisor i float32Data =
          convert24_loop sample len divisor (i + 1) (float32Data[i := ?v])"
      using True reads stored by (subst convert24_loop.simps) simp
    also have "\<dots> = Some (take (i + 1) (float32Data[i := ?v]) @ map (\<lambda>j. f32_div (float32_of_int32 (sample24_at sample j)) divisor) [i + 1..<len])"
      using True "1.prems" reads stored by (intro "1.IH") simp_all
    also have "take (i + 1) (float32Data[i := ?v]) @ map (\<lambda>j. f32_div (float32_of_int32 (sample24_at sample j)) divisor) [i + 1..<len]
        = take i float32Data @ map (\<lambda>j. f32_div (float32_of_int32 (sample24_at sample j)) divisor) [i..<len]"
      using True "1.prems" by (simp add: fill_step upt_conv_Cons)
    finally show ?thesis .
  next
    case False
    with "1.prems" have "i = len" by simp
    then show ?thesis using "1.prems" by (subst convert24_loop.simps) simp
  qed
qed

lemma convert24BitToFloat32_map:
  "convert24BitToFloat32 sample =
     Some (map (\<lambda>j. f32_div (float32_of_int32 (sample24_at sample j)) (to_float32 8388608)) [0..<length sample div 3])"
  by (simp add: convert24BitToFloat32_def Let_def convert24_loop_eq)

lemma convert32_loop_eq:
  "i \<le> len \<Longrightarrow> length float32Data = len \<Longrightarrow> len \<le> length sample div 4 \<Longrightarrow>
   convert32_loop sample len divisor i float32Data =
     Some (take i float32Data @ map (\<lambda>j. f32_div (float32_of_int32 (sample32_at sample j)) divisor) [i..<len])"
proof (induction sample len divisor i float32Data rule: convert32_loop.induct)
  case (1 sample len divisor i float32Data)
  show ?case
  proof (cases "i < len")
    case True
    let ?v = "f32_div (float32_of_int32 (sample32_at sample i)) divisor"
    have "i * 4 + 3 < length sample" using True "1.prems"(3) by simp
    then have reads: "slice_get sample (i * 4) = Some (sample ! (i * 4))" "slice_get sample (i * 4 + 1) = Some (sample ! (i * 4 + 1))" "slice_get sample (i * 4 + 2) = Some (sample ! (i * 4 + 2))" "slice_get sample (i * 4 + 3) = Some (sample ! (i * 4 + 3))"
      by (simp_all add: slice_get_def)
    have stored: "slice_set float32Data i ?v = Some (float32Data[i := ?v])"
      using True "1.prems"(2) by (simp add: slice_set_def)
    have "convert32_loop sample len divisor i float32Data =
          convert32_loop sample len divisor (i + 1) (float32Data[i := ?v])"
      using True reads stored by (subst convert32_loop.simps) simp
    also have "\<dots> = Some (take (i + 1) (float32Data[i := ?v]) @ map (\<lambda>j. f32_div (float32_of_int32 (sample32_at sample j)) divisor) [i + 1..<len])"
      using True "1.prems" reads stored by (intro "1.IH") simp_all
    also have "take (i + 1) (float32Data[i := ?v]) @ map (\<lambda>j. f32_div (float32_of_int32 (sample32_at sample j)) divisor) [i + 1..<len]
        = take i float32Data @ map (\<lambda>j. f32_div (float32_of_int32 (sample32_at sample j)) divisor) [i..<len]"
      using True "1.prems" by (simp add: fill_step upt_conv_Cons)
    finally show ?thesis .
  next
    case False
    with "1.prems" have "i = len" by simp
    then show ?thesis using "1.prems" by (subst convert32_loop.simps) simp
  qed
qed

lemma convert32BitToFloat32_map:
  "convert32BitToFloat32 sample =
     Some (map (\<lambda>j. f32_div (float32_of_int32 (sample32_at sample j)) (to_float32 2147483648)) [0..<length sample div 4])"
  by (simp add: convert32BitToFloat32_def Let_def convert32_loop_eq)

section \<open>The integers assembled from the bytes\<close>

lemma or_push_bit_add:
  fixes a b :: int
  assumes "0 \<le> a" "a < 2 ^ n"
  shows "a OR 2 ^ n * b = a + 2 ^ n * b"
proof -
  have "take_bit n a = a" using assms by (simp add: take_bit_int_eq_self)
  then have "a OR push_bit n b = concat_bit n a b" by (simp add: concat_bit_def)
  also have "\<dots> = take_bit n a + push_bit n b" by (rule concat_bit_eq)
  finally show ?thesis using \<open>take_bit n a = a\<close> by (simp add: push_bit_eq_mult mult.commute)
qed

lemma uint_byte_bounds: "0 \<le> uint (b :: byte)" "uint (b :: byte) < 256"
  using uint_bounded[of b] by simp_all

lemma uint_ucast_byte16: "uint (ucast (b :: byte) :: 16 word) = uint b"
  using uint_byte_bounds[of b] by (simp add: unsigned_ucast_eq take_bit_int_eq_self)

lemma uint_ucast_byte32: "uint (ucast (b :: byte) :: 32 word) = uint b"
  using uint_byte_bounds[of b] by (simp add: unsigned_ucast_eq take_bit_int_eq_self)

lemma uint_push_byte16:
  assumes "n \<le> 8"
  shows "uint (push_bit n (ucast (b :: byte) :: 16 word)) = 2 ^ n * uint b"
proof -
  have "2 ^ n * uint b < 2 ^ n * 2 ^ 8" using uint_byte_bounds[of b] by simp
  also have "\<dots> = (2::int) ^ (n + 8)" by (simp add: power_add)
  also have "\<dots> \<le> 2 ^ 16" using assms by (intro power_increasing) simp_all
  finally have bnd: "2 ^ n * uint b < 2 ^ 16" .
  have "uint (push_bit n (ucast b :: 16 word)) = take_bit 16 (push_bit n (uint (ucast b :: 16 word)))"
    by (simp add: unsigned_push_bit_eq)
  also have "\<dots> = take_bit 16 (2 ^ n * uint b)"
    by (simp only: uint_ucast_byte16 push_bit_eq_mult mult.commute)
  also have "\<dots> = 2 ^ n * uint b"
    using bnd by (intro take_bit_int_eq_self) simp_all
  finally show ?thesis .
qed

lemma uint_push_byte32:
  assumes "n \<le> 24"
  shows "uint (push_bit n (ucast (b :: byte) :: 32 word)) = 2 ^ n * uint b"
proof -
  have "2 ^ n * uint b < 2 ^ n * 2 ^ 8" using uint_byte_bounds[of b] by simp
  also have "\<dots> = (2::int) ^ (n + 8)" by (simp add: power_add)
  also have "\<dots> \<le> 2 ^ 32" using assms by (intro power_increasing) simp_all
  finally have bnd: "2 ^ n * uint b < 2 ^ 32" .
  have "uint (push_bit n (ucast b :: 32 word)) = take_bit 32 (push_bit n (uint (ucast b :: 32 word)))"
    by (simp add: unsigned_push_bit_eq)
  also have "\<dots> = take_bit 32 (2 ^ n * uint b)"
    by (simp only: uint_ucast_byte32 push_bit_eq_mult mult.commute)
  also have "\<dots> = 2 ^ n * uint b"
    using bnd by (intro take_bit_int_eq_self) simp_all
  finally show ?thesis .
qed

lemma uint_push8_byte16: "uint (push_bit 8 (ucast (b :: byte) :: 16 word)) = 2 ^ 8 * uint b"
  by (rule uint_push_byte16) simp

lemma uint_push8_byte32: "uint (push_bit 8 (ucast (b :: byte) :: 32 word)) = 2 ^ 8 * uint b"
  by (rule uint_push_byte32) simp

lemma uint_push16_byte32: "uint (push_bit 16 (ucast (b :: byte) :: 32 word)) = 2 ^ 16 * uint b"
  by (rule uint_push_byte32) simp

lemma uint_push24_byte32: "uint (push_bit 24 (ucast (b :: byte) :: 32 word)) = 2 ^ 24 * uint b"
  by (rule uint_push_byte32) simp

lemma uint_sample16: "uint (sample16 b0 b1) = uint b0 + 2 ^ 8 * uint b1"
proof -
  have a: "0 \<le> uint b0" "uint b0 < 2 ^ 8" using uint_byte_bounds by simp_all
  have "uint (sample16 b0 b1) = uint b0 OR 2 ^ 8 * uint b1"
    unfolding sample16_def by (simp only: unsigned_or_eq uint_ucast_byte16 uint_push8_byte16)
  then show ?thesis using a by (simp only: or_push_bit_add)
qed

lemma uint_assemble24:
  fixes b0 b1 b2 :: byte
  shows "uint ((ucast b0 :: 32 word) OR push_bit 8 (ucast b1 :: 32 word) OR push_bit 16 (ucast b2 :: 32 word))
          = uint b0 + 2 ^ 8 * uint b1 + 2 ^ 16 * uint b2"
proof -
  let ?a = "uint b0" and ?b = "uint b1" and ?c = "uint b2"
  have a: "0 \<le> ?a" "?a < 2 ^ 8" and b: "0 \<le> ?b" "?b < 2 ^ 8"
    using uint_byte_bounds by simp_all
  have "uint ((ucast b0 :: 32 word) OR push_bit 8 (ucast b1 :: 32 word) OR push_bit 16 (ucast b2 :: 32 word))
        = ?a OR 2 ^ 8 * ?b OR 2 ^ 16 * ?c"
    by (simp only: unsigned_or_eq uint_ucast_byte32 uint_push8_byte32 uint_push16_byte32)
  also have "2 ^ 8 * ?b OR 2 ^ 16 * ?c = 2 ^ 8 * ?b + 2 ^ 16 * ?c"
    using b by (intro or_push_bit_add) simp_all
  also have "2 ^ 8 * ?b + 2 ^ 16 * ?c = 2 ^ 8 * (?b + 2 ^ 8 * ?c)" by simp
  also have "?a OR 2 ^ 8 * (?b + 2 ^ 8 * ?c) = ?a + 2 ^ 8 * (?b + 2 ^ 8 * ?c)"
    using a by (rule or_push_bit_add)
  finally show ?thesis by simp
qed

lemma uint_sample32:
  "uint (sample32 b0 b1 b2 b3) = uint b0 + 2 ^ 8 * uint b1 + 2 ^ 16 * uint b2 + 2 ^ 24 * uint b3"
proof -
  let ?a = "uint b0" and ?b = "uint b1" and ?c = "uint b2" and ?d = "uint b3"
  have a: "0 \<le> ?a" "?a < 2 ^ 8" and b: "0 \<le> ?b" "?b < 2 ^ 8" and c: "0 \<le> ?c" "?c < 2 ^ 8"
    using uint_byte_bounds by simp_all
  have "uint (sample32 b0 b1 b2 b3) = ?a OR 2 ^ 8 * ?b OR 2 ^ 16 * ?c OR 2 ^ 24 * ?d"
    unfolding sample32_def
    by (simp only: unsigned_or_eq uint_ucast_byte32 uint_push8_byte32 uint_push16_byte32 uint_push24_byte32)
  also have "2 ^ 16 * ?c OR 2 ^ 24 * ?d = 2 ^ 16 * ?c + 2 ^ 24 * ?d"
    using c by (intro or_push_bit_add) simp_all
  also have "2 ^ 16 * ?c + 2 ^ 24 * ?d = 2 ^ 16 * (?c + 2 ^ 8 * ?d)" by simp
  also have "2 ^ 8 * ?b OR 2 ^ 16 * (?c + 2 ^ 8 * ?d) = 2 ^ 8 * ?b + 2 ^ 16 * (?c + 2 ^ 8 * ?d)"
    using b by (intro or_push_bit_add) simp_all
  also have "2 ^ 8 * ?b + 2 ^ 16 * (?c + 2 ^ 8 * ?d) = 2 ^ 8 * (?b + 2 ^ 8 * (?c + 2 ^ 8 * ?d))" by simp
  also have "?a OR 2 ^ 8 * (?b + 2 ^ 8 * (?c + 2 ^ 8 * ?d)) = ?a + 2 ^ 8 * (?b + 2 ^ 8 * (?c + 2 ^ 8 * ?d))"
    using a by (rule or_push_bit_add)
  finally show ?thesis by simp
qed

lemma signed_take_bit_uint:
  fixes u :: int
  assumes "0 \<le> u" "u < 2 ^ Suc n"
  shows "signed_take_bit n u = (if u < 2 ^ n then u else u - 2 ^ Suc n)"
proof (cases "u < 2 ^ n")
  case True
  then have "signed_take_bit n u = u"
    using assms by (simp add: signed_take_bit_int_eq_self)
  with True show ?thesis by simp
next
  case False
  have "signed_take_bit n u = signed_take_bit n (u - 2 ^ Suc n)"
    by (simp add: signed_take_bit_eq_iff_take_bit_eq take_bit_eq_mod)
  also have "\<dots> = u - 2 ^ Suc n"
    using False assms by (intro signed_take_bit_int_eq_self) simp_all
  finally show ?thesis using False by simp
qed

lemma sint32_uint: "sint (w :: 32 word) = (if uint w < 2 ^ 31 then uint w else uint w - 2 ^ 32)"
  using signed_take_bit_uint[of "uint w" 31] uint_bounded[of w] by (simp add: sint_uint)

lemma sint16_uint: "sint (w :: 16 word) = (if uint w < 2 ^ 15 then uint w else uint w - 2 ^ 16)"
  using signed_take_bit_uint[of "uint w" 15] uint_bounded[of w] by (simp add: sint_uint)

lemma bit_top_iff:
  fixes u :: int
  assumes "0 \<le> u" "u < 2 ^ Suc n"
  shows "bit u n \<longleftrightarrow> 2 ^ n \<le> u"
proof (cases "u < 2 ^ n")
  case True
  then have "u div 2 ^ n = 0" using assms by (simp add: div_pos_pos_trivial)
  then show ?thesis using True by (simp add: bit_iff_odd)
next
  case False
  then have "0 \<le> u - 2 ^ n" "u - 2 ^ n < 2 ^ n" using assms by simp_all
  then have "(u - 2 ^ n) div 2 ^ n = 0" by (simp add: div_pos_pos_trivial)
  moreover have "u div 2 ^ n = (u - 2 ^ n) div 2 ^ n + 1"
    using div_add_self2[of "2 ^ n :: int" "u - 2 ^ n"] by simp
  ultimately show ?thesis using False by (simp add: bit_iff_odd)
qed

lemma uint_assemble24_bounds:
  fixes b0 b1 b2 :: byte
  shows "0 \<le> uint b0 + 2 ^ 8 * uint b1 + 2 ^ 16 * uint b2"
    and "uint b0 + 2 ^ 8 * uint b1 + 2 ^ 16 * uint b2 < 2 ^ 24"
  using uint_byte_bounds[of b0] uint_byte_bounds[of b1] uint_byte_bounds[of b2] by simp_all

lemma sint_sign_extend24:
  fixes raw :: "32 word"
  assumes "uint raw < 2 ^ 24"
  shows "sint (if 0 < sint (raw AND 0x00800000) then raw OR word_of_int (NOT 0x00FFFFFF) else raw)
         = (if bit (uint raw) 23 then uint raw - 2 ^ 24 else uint raw)"
proof -
  define u where "u = uint raw"
  have u0: "0 \<le> u" and u24: "u < 2 ^ 24" using assms by (simp_all add: u_def)
  have "uint (raw AND 0x00800000) = u AND 2 ^ 23"
    by (simp add: unsigned_and_eq u_def)
  moreover have a: "0 \<le> u AND 2 ^ 23" "u AND 2 ^ 23 \<le> 2 ^ 23"
    using u0 by (simp_all add: AND_upper2)
  ultimately have "sint (raw AND 0x00800000) = u AND 2 ^ 23"
    by (simp add: sint32_uint)
  moreover have "0 < u AND 2 ^ 23 \<longleftrightarrow> bit u 23"
    using and_exp_eq_0_iff_not_bit[of u 23] a(1) by linarith
  ultimately have cond: "0 < sint (raw AND 0x00800000) \<longleftrightarrow> bit u 23" by simp
  have "uint (word_of_int (NOT 0x00FFFFFF) :: 32 word) = 2 ^ 24 * 255"
    by simp
  then have "uint (raw OR word_of_int (NOT 0x00FFFFFF)) = u OR 2 ^ 24 * 255"
    by (simp only: unsigned_or_eq u_def)
  also have "\<dots> = u + 2 ^ 24 * 255"
    using u0 u24 by (rule or_push_bit_add)
  finally have e: "uint (raw OR word_of_int (NOT 0x00FFFFFF)) = u + 2 ^ 24 * 255" .
  have "\<not> u + 2 ^ 24 * 255 < 2 ^ 31" using u0 by simp
  then have "sint (raw OR word_of_int (NOT 0x00FFFFFF)) = u - 2 ^ 24"
    unfolding sint32_uint e by simp
  moreover have "sint raw = u" using u24 by (simp add: sint32_uint u_def)
  ultimately show ?thesis using cond by (simp add: u_def)
qed

lemma sint_sample24:
  "sint (sample24 b0 b1 b2) =
     (let u = uint b0 + 2 ^ 8 * uint b1 + 2 ^ 16 * uint b2
      in if bit u 23 then u - 2 ^ 24 else u)"
  unfolding sample24_def Let_def
  using sint_sign_extend24[of "(ucast b0 :: 32 word)
                OR push_bit 8 (ucast b1 :: 32 word) OR push_bit 16 (ucast b2 :: 32 word)"]
    uint_assemble24_bounds(2)[of b0 b1 b2]
  by (simp only: uint_assemble24)

lemma sint_sample24_bounds: "- (2 ^ 23) \<le> sint (sample24 b0 b1 b2)" "sint (sample24 b0 b1 b2) < 2 ^ 23"
proof -
  define u where "u = uint b0 + 2 ^ 8 * uint b1 + 2 ^ 16 * uint b2"
  have u: "0 \<le> u" "u < 2 ^ 24" unfolding u_def by (rule uint_assemble24_bounds)+
  then have b: "bit u 23 \<longleftrightarrow> 2 ^ 23 \<le> u" using bit_top_iff[of u 23] by simp
  have s: "sint (sample24 b0 b1 b2) = (if bit u 23 then u - 2 ^ 24 else u)"
    unfolding sint_sample24 Let_def u_def by (rule refl)
  show "- (2 ^ 23) \<le> sint (sample24 b0 b1 b2)" "sint (sample24 b0 b1 b2) < 2 ^ 23"
    using u b by (simp_all add: s)
qed

section \<open>The decoded samples\<close>

lemma f32_div_small_int:
  assumes "\<bar>n\<bar> < 2 ^ 24" "k \<le> 127"
  shows "f32_div (to_float32 (of_int n)) (to_float32 (2 ^ k)) = of_int n / 2 ^ k"
  using f32_div_int_pow2[OF assms(2), of n] assms(1) by (simp add: to_float32_of_int_exact)

lemma sample16_decoded:
  "f32_div (float32_of_int16 w) (to_float32 32768) = of_int (sint w) / 32768"
proof -
  have "- (2 ^ 15) \<le> sint w" "sint w < 2 ^ 15"
    using sint_ge[of w] sint_lt[of w] by simp_all
  then have "\<bar>sint w\<bar> < 2 ^ 24" by simp
  then show ?thesis
    using f32_div_small_int[of "sint w" 15] by (simp add: float32_of_int16_def)
qed

lemma sample24_decoded:
  "f32_div (float32_of_int32 (sample24 b0 b1 b2)) (to_float32 8388608)
     = of_int (sint (sample24 b0 b1 b2)) / 8388608"
proof -
  have "\<bar>sint (sample24 b0 b1 b2)\<bar> < 2 ^ 24"
    using sint_sample24_bounds[of b0 b1 b2] by simp
  then show ?thesis
    using f32_div_small_int[of "sint (sample24 b0 b1 b2)" 23] by (simp add: float32_of_int32_def)
qed

lemma sample32_decoded:
  "f32_div (float32_of_int32 w) (to_float32 2147483648) = to_float32 (of_int (sint w)) / 2147483648"
  using f32_div_int_pow2[of 31 "sint w"] by (simp add: float32_of_int32_def)

lemma convert16_decoded:
  "convert16BitToFloat32 sample =
     Some (map (\<lambda>j. of_int (sint (sample16_at sample j)) / 32768) [0..<length sample div 2])"
  by (simp only: convert16BitToFloat32_map sample16_decoded)

lemma convert24_decoded:
  "convert24BitToFloat32 sample =
     Some (map (\<lambda>j. of_int (sint (sample24_at sample j)) / 8388608) [0..<length sample div 3])"
  by (simp only: convert24BitToFloat32_map sample24_decoded)

lemma convert32_decoded:
  "convert32BitToFloat32 sample =
     Some (map (\<lambda>j. to_float32 (of_int (sint (sample32_at sample j))) / 2147483648)
             [0..<length sample div 4])"
  by (simp only: convert32BitToFloat32_map sample32_decoded)

lemma sint_sample16:
  "sint (sample16 b0 b1) =
     (let u = uint b0 + 2 ^ 8 * uint b1 in if u < 2 ^ 15 then u else u - 2 ^ 16)"
  by (simp only: sint16_uint uint_sample16 Let_def)

lemma sign_extended_pattern:
  fixes u :: int
  assumes "0 \<le> u" "u < 2 ^ 24"
  shows "signed_take_bit 31 (u OR push_bit 24 (mask 8)) = u - 2 ^ 24"
proof -
  have "u OR push_bit 24 (mask 8) = u OR 2 ^ 24 * 255" by (simp add: push_bit_eq_mult mask_eq_exp_minus_1)
  also have "\<dots> = u + 2 ^ 24 * 255" using assms by (rule or_push_bit_add)
  finally show ?thesis
    using signed_take_bit_uint[of "u + 2 ^ 24 * 255" 31] assms by simp
qed

text \<open>The byte patterns named by the specification, evaluated.\<close>

lemma ex16_min: "ConvertToFloat32 [0x00, 0x80] 16 = Some (Inr [[- 1]])"
  by code_simp

lemma ex16_max: "ConvertToFloat32 [0xFF, 0x7F] 16 = Some (Inr [[32767 / 32768]])"
  by code_simp

lemma ex24_min: "ConvertToFloat32 [0x00, 0x00, 0x80] 24 = Some (Inr [[- 1]])"
  by code_simp

lemma ex24_max: "ConvertToFloat32 [0xFF, 0xFF, 0x7F] 24 = Some (Inr [[8388607 / 8388608]])"
  by code_simp

lemma ex32_max: "ConvertToFloat32 [0xFF, 0xFF, 0xFF, 0x7F] 32 = Some (Inr [[1]])"
  by code_simp

section \<open>Claims about the decoder\<close>

text \<open>
  Claim C3. At bit depth 16 the decoder returns one channel whose \<open>i\<close>-th sample is the
  signed 16-bit integer with low byte \<open>sample ! (i * 2)\<close> and high byte
  \<open>sample ! (i * 2 + 1)\<close>, divided by 32768: the unsigned value \<open>u\<close> of the two bytes
  denotes \<open>u\<close> below \<open>2 ^ 15\<close> and \<open>u - 2 ^ 16\<close> from there on. The conversion to
  \<^verbatim>\<open>float32\<close> and the division are exact. Bytes \<open>00 80\<close> decode to \<open>- 1\<close>, bytes
  \<open>FF 7F\<close> to \<open>32767 / 32768\<close>, which is 0.999969 to six decimals.
\<close>

theorem decode16_sample:
  "(i < length sample div 2 \<longrightarrow>
      (\<exists>ch. ConvertToFloat32 sample 16 = Some (Inr [ch]) \<and> i < length ch \<and>
            ch ! i = (let u = uint (sample ! (i * 2)) + 256 * uint (sample ! (i * 2 + 1));
                          v = (if u < 32768 then u else u - 65536)
                      in of_int v / 32768)))
   \<and> ConvertToFloat32 [0x00, 0x80] 16 = Some (Inr [[- 1]])
   \<and> ConvertToFloat32 [0xFF, 0x7F] 16 = Some (Inr [[32767 / 32768]])
   \<and> \<bar>32767 / 32768 - 999969 / 1000000 :: float32\<bar> < 1 / 1000000"
proof -
  have "map (\<lambda>j. of_int (sint (sample16_at sample j)) / 32768) [0..<length sample div 2] ! i =
          (let u = uint (sample ! (i * 2)) + 256 * uint (sample ! (i * 2 + 1));
               v = (if u < 32768 then u else u - 65536)
           in of_int v / 32768 :: float32)" if "i < length sample div 2"
    using that by (simp add: sint_sample16 Let_def)
  then show ?thesis
    by (simp add: ex16_min ex16_max) (simp add: ConvertToFloat32_def convert16_decoded)
qed

text \<open>The second sample of the four bytes \<open>00 80 FF 7F\<close>.\<close>

theorem decode16_sample_witness:
  "(1 :: nat) < length [0x00, 0x80, 0xFF, 0x7F :: byte] div 2 \<and>
   (\<exists>ch. ConvertToFloat32 [0x00, 0x80, 0xFF, 0x7F] 16 = Some (Inr [ch]) \<and> ch ! 1 = 32767 / 32768)"
  using decode16_sample[of 1 "[0x00, 0x80, 0xFF, 0x7F]"] by (auto simp add: Let_def)

text \<open>
  Claim C2. At bit depth 24 the decoder returns one channel whose \<open>i\<close>-th sample comes
  from the unsigned 24-bit value \<open>u\<close> of the bytes \<open>i * 3\<close>, \<open>i * 3 + 1\<close>, \<open>i * 3 + 2\<close>
  (low byte first): when bit 23 of \<open>u\<close> is set, the bits 24 to 31 are set and the 32-bit
  pattern is read as a signed integer; otherwise \<open>u\<close> is taken as it is; the result is
  divided by 8388608, exactly. Bytes \<open>00 00 80\<close> decode to \<open>- 1\<close>, bytes \<open>FF FF 7F\<close>
  to \<open>8388607 / 8388608\<close>, which is 0.999999 to six decimals.
\<close>

theorem decode24_sample:
  "(i < length sample div 3 \<longrightarrow>
      (\<exists>ch. ConvertToFloat32 sample 24 = Some (Inr [ch]) \<and> i < length ch \<and>
            ch ! i = (let u = uint (sample ! (i * 3)) + 2 ^ 8 * uint (sample ! (i * 3 + 1))
                               + 2 ^ 16 * uint (sample ! (i * 3 + 2));
                          v = (if bit u 23 then signed_take_bit 31 (u OR push_bit 24 (mask 8)) else u)
                      in of_int v / 8388608)))
   \<and> ConvertToFloat32 [0x00, 0x00, 0x80] 24 = Some (Inr [[- 1]])
   \<and> ConvertToFloat32 [0xFF, 0xFF, 0x7F] 24 = Some (Inr [[8388607 / 8388608]])
   \<and> \<bar>8388607 / 8388608 - 999999 / 1000000 :: float32\<bar> < 1 / 1000000"
proof -
  have "map (\<lambda>j. of_int (sint (sample24_at sample j)) / 8388608) [0..<length sample div 3] ! i =
          (let u = uint (sample ! (i * 3)) + 2 ^ 8 * uint (sample ! (i * 3 + 1))
                               + 2 ^ 16 * uint (sample ! (i * 3 + 2));
               v = (if bit u 23 then signed_take_bit 31 (u OR push_bit 24 (mask 8)) else u)
           in of_int v / 8388608 :: float32)" if "i < length sample div 3"
  proof -
    define u where "u = uint (sample ! (i * 3)) + 2 ^ 8 * uint (sample ! (i * 3 + 1))
                               + 2 ^ 16 * uint (sample ! (i * 3 + 2))"
    have "0 \<le> u" "u < 2 ^ 24" unfolding u_def by (rule uint_assemble24_bounds)+
    then have "signed_take_bit 31 (u OR push_bit 24 (mask 8)) = u - 2 ^ 24"
      by (rule sign_extended_pattern)
    then have "sint (sample24_at sample i) = (if bit u 23 then signed_take_bit 31 (u OR push_bit 24 (mask 8)) else u)"
      unfolding sint_sample24 Let_def u_def[symmetric] by simp
    moreover have "map (\<lambda>j. of_int (sint (sample24_at sample j)) / 8388608) [0..<length sample div 3] ! i
        = (of_int (sint (sample24_at sample i)) / 8388608 :: float32)"
      using that by (simp del: of_int_add of_int_mult)
    ultimately show ?thesis
      unfolding Let_def u_def[symmetric] by (simp only:)
  qed
  then show ?thesis
    by (simp add: ex24_min ex24_max) (simp add: ConvertToFloat32_def convert24_decoded)
qed

text \<open>The second sample of the six bytes \<open>FF FF 7F 00 00 80\<close>.\<close>

theorem decode24_sample_witness:
  "(1 :: nat) < length [0xFF, 0xFF, 0x7F, 0x00, 0x00, 0x80 :: byte] div 3 \<and>
   (\<exists>ch. ConvertToFloat32 [0xFF, 0xFF, 0x7F, 0x00, 0x00, 0x80] 24 = Some (Inr [ch]) \<and> ch ! 1 = - 1)"
  using decode24_sample[of 1 "[0xFF, 0xFF, 0x7F, 0x00, 0x00, 0x80]"]
    sign_extended_pattern[of 8388608]
  by (auto simp add: Let_def)

text \<open>
  Claim C4. For each supported bit depth the decoder succeeds (it neither panics nor
  returns an error) with exactly one channel, of length
  \<open>length sample div (bitDepth div 8)\<close>: trailing bytes that do not complete a sample are
  dropped. A 16-bit decode of five bytes has two samples.
\<close>

theorem ConvertToFloat32_one_channel:
  "(bitDepth = 16 \<or> bitDepth = 24 \<or> bitDepth = 32 \<longrightarrow>
      (\<exists>ch. ConvertToFloat32 sample bitDepth = Some (Inr [ch]) \<and>
            length ch = length sample div nat (bitDepth div 8)))
   \<and> (length sample = 5 \<longrightarrow> (\<exists>ch. ConvertToFloat32 sample 16 = Some (Inr [ch]) \<and> length ch = 2))"
  by (auto simp add: ConvertToFloat32_def convert16_decoded convert24_decoded convert32_decoded)

text \<open>Seven bytes at depth 24 and five bytes at depth 16 give two samples each.\<close>

theorem ConvertToFloat32_one_channel_witness:
  "((24 :: int) = 16 \<or> (24 :: int) = 24 \<or> (24 :: int) = 32) \<and>
   (\<exists>ch. ConvertToFloat32 [1, 2, 3, 4, 5, 6, 7] 24 = Some (Inr [ch]) \<and> length ch = 2) \<and>
   length [1, 2, 3, 4, 5 :: byte] = 5 \<and>
   (\<exists>ch. ConvertToFloat32 [1, 2, 3, 4, 5] 16 = Some (Inr [ch]) \<and> length ch = 2)"
  using ConvertToFloat32_one_channel[of 24 "[1, 2, 3, 4, 5, 6, 7]"]
    ConvertToFloat32_one_channel[of 16 "[1, 2, 3, 4, 5]"]
  by simp

lemma sample16_range:
  "- 1 \<le> (of_int (sint (w :: 16 word)) / 32768 :: rat)" "(of_int (sint (w :: 16 word)) / 32768 :: rat) < 1"
proof -
  have "- (2 ^ 15) \<le> sint w" "sint w < 2 ^ 15"
    using sint_ge[of w] sint_lt[of w] by simp_all
  then have "(of_int (- (2 ^ 15)) :: rat) \<le> of_int (sint w)" "(of_int (sint w) :: rat) < of_int (2 ^ 15)"
    by (simp_all only: of_int_le_iff of_int_less_iff)
  then show "- 1 \<le> (of_int (sint w) / 32768 :: rat)" "(of_int (sint w) / 32768 :: rat) < 1"
    by simp_all
qed

lemma sample24_range:
  "- 1 \<le> (of_int (sint (sample24 b0 b1 b2)) / 8388608 :: rat)"
  "(of_int (sint (sample24 b0 b1 b2)) / 8388608 :: rat) < 1"
proof -
  have "(of_int (- (2 ^ 23)) :: rat) \<le> of_int (sint (sample24 b0 b1 b2))"
    "(of_int (sint (sample24 b0 b1 b2)) :: rat) < of_int (2 ^ 23)"
    using sint_sample24_bounds[of b0 b1 b2] by (simp_all only: of_int_le_iff of_int_less_iff)
  then show "- 1 \<le> (of_int (sint (sample24 b0 b1 b2)) / 8388608 :: rat)"
    "(of_int (sint (sample24 b0 b1 b2)) / 8388608 :: rat) < 1"
    by simp_all
qed

lemma sample32_range:
  "- 1 \<le> to_float32 (of_int (sint (w :: 32 word))) / 2147483648"
  "to_float32 (of_int (sint (w :: 32 word))) / 2147483648 \<le> 1"
proof -
  have "- (2 ^ 31) \<le> sint w" "sint w < 2 ^ 31"
    using sint_ge[of w] sint_lt[of w] by simp_all
  then have "\<bar>sint w\<bar> \<le> 2 ^ 31" by simp
  then have "(of_int \<bar>sint w\<bar> :: rat) \<le> of_int (2 ^ 31)" by (simp only: of_int_le_iff)
  then have "\<bar>of_int (sint w) :: rat\<bar> \<le> 2 powi 31" by simp
  then have "\<bar>to_float32 (of_int (sint w))\<bar> \<le> 2 powi 31" by (rule to_float32_abs_le) simp
  then show "- 1 \<le> to_float32 (of_int (sint w)) / 2147483648"
    "to_float32 (of_int (sint w)) / 2147483648 \<le> 1"
    by (simp_all add: abs_le_iff)
qed

text \<open>
  Claim C8 says that every decoded sample is strictly below \<open>1\<close>. At depth 32 the
  integer \<open>2147483647\<close> (bytes \<open>FF FF FF 7F\<close>) has no \<^verbatim>\<open>float32\<close> of its own: the
  conversion rounds it to \<open>2 ^ 31\<close>, and the quotient by \<open>2147483648\<close> is \<open>1\<close>.
\<close>

theorem decoded_sample_range_counterexample:
  "ConvertToFloat32 [0xFF, 0xFF, 0xFF, 0x7F] 32 = Some (Inr [[1]]) \<and> \<not> (1 :: float32) < 1"
  by (simp add: ex32_max)

text \<open>
  Claim C8, amended. For each supported bit depth every decoded sample lies in the closed
  range from \<open>- 1\<close> to \<open>1\<close>; at the depths 16 and 24 it is strictly below \<open>1\<close>.
\<close>

theorem decoded_sample_range:
  "bitDepth = 16 \<or> bitDepth = 24 \<or> bitDepth = 32 \<Longrightarrow>
     \<exists>ch. ConvertToFloat32 sample bitDepth = Some (Inr [ch]) \<and>
          (\<forall>x \<in> set ch. - 1 \<le> x \<and> x \<le> 1) \<and>
          (bitDepth \<noteq> 32 \<longrightarrow> (\<forall>x \<in> set ch. x < 1))"
proof -
  assume "bitDepth = 16 \<or> bitDepth = 24 \<or> bitDepth = 32"
  moreover have "\<exists>ch. convert16BitToFloat32 sample = Some ch \<and> (\<forall>x \<in> set ch. - 1 \<le> x \<and> x < 1)"
    using sample16_range by (auto simp add: convert16_decoded)
  moreover have "\<exists>ch. convert24BitToFloat32 sample = Some ch \<and> (\<forall>x \<in> set ch. - 1 \<le> x \<and> x < 1)"
    using sample24_range by (auto simp add: convert24_decoded)
  moreover have "\<exists>ch. convert32BitToFloat32 sample = Some ch \<and> (\<forall>x \<in> set ch. - 1 \<le> x \<and> x \<le> 1)"
    using sample32_range by (auto simp add: convert32_decoded)
  ultimately show ?thesis
    by (auto simp add: ConvertToFloat32_def less_imp_le)
qed

text \<open>The largest 32-bit and the largest 16-bit sample.\<close>

theorem decoded_sample_range_witness:
  "((32 :: int) = 16 \<or> (32 :: int) = 24 \<or> (32 :: int) = 32) \<and>
   (\<exists>ch. ConvertToFloat32 [0xFF, 0xFF, 0xFF, 0x7F] 32 = Some (Inr [ch]) \<and>
         (\<forall>x \<in> set ch. - 1 \<le> x \<and> x \<le> 1))
   \<and> ((16 :: int) = 16 \<or> (16 :: int) = 24 \<or> (16 :: int) = 32) \<and> (16 :: int) \<noteq> 32 \<and>
   (\<exists>ch. ConvertToFloat32 [0xFF, 0x7F] 16 = Some (Inr [ch]) \<and> ch \<noteq> [] \<and> (\<forall>x \<in> set ch. x < 1))"
  using decoded_sample_range[of 32 "[0xFF, 0xFF, 0xFF, 0x7F]"] decoded_sample_range[of 16 "[0xFF, 0x7F]"]
  by (auto simp add: ex16_max)

section \<open>Decoding a concatenation\<close>

lemma map_upt_split:
  "map f [0..<m + n] = map f [0..<m] @ map (\<lambda>j. f (m + j)) [0..<n]"
  by (induction n) simp_all

lemma sample16_append_left:
  assumes "j < m" "length a = m * 2"
  shows "sample16_at (a @ b) j = sample16_at a j"
proof -
  have "j * 2 + 1 < length a" using assms by simp
  then have "(a @ b) ! (j * 2) = a ! (j * 2)" "(a @ b) ! (j * 2 + 1) = a ! (j * 2 + 1)"
    by (simp_all add: nth_append)
  then show ?thesis by (simp only:)
qed

lemma sample16_append_right:
  assumes "length a = m * 2"
  shows "sample16_at (a @ b) (m + j) = sample16_at b j"
proof -
  have "(m + j) * 2 = length a + (j * 2)" "(m + j) * 2 + 1 = length a + (j * 2 + 1)"
    using assms by (simp_all add: algebra_simps)
  then have "(a @ b) ! ((m + j) * 2) = b ! (j * 2)" "(a @ b) ! ((m + j) * 2 + 1) = b ! (j * 2 + 1)"
    by (simp_all only: nth_append_length_plus)
  then show ?thesis by (simp only:)
qed

lemma sample24_append_left:
  assumes "j < m" "length a = m * 3"
  shows "sample24_at (a @ b) j = sample24_at a j"
proof -
  have "j * 3 + 2 < length a" using assms by simp
  then have "(a @ b) ! (j * 3) = a ! (j * 3)" "(a @ b) ! (j * 3 + 1) = a ! (j * 3 + 1)" "(a @ b) ! (j * 3 + 2) = a ! (j * 3 + 2)"
    by (simp_all add: nth_append)
  then show ?thesis by (simp only:)
qed

lemma sample24_append_right:
  assumes "length a = m * 3"
  shows "sample24_at (a @ b) (m + j) = sample24_at b j"
proof -
  have "(m + j) * 3 = length a + (j * 3)" "(m + j) * 3 + 1 = length a + (j * 3 + 1)" "(m + j) * 3 + 2 = length a + (j * 3 + 2)"
    using assms by (simp_all add: algebra_simps)
  then have "(a @ b) ! ((m + j) * 3) = b ! (j * 3)" "(a @ b) ! ((m + j) * 3 + 1) = b ! (j * 3 + 1)" "(a @ b) ! ((m + j) * 3 + 2) = b ! (j * 3 + 2)"
    by (simp_all only: nth_append_length_plus)
  then show ?thesis by (simp only:)
qed

lemma sample32_append_left:
  assumes "j < m" "length a = m * 4"
  shows "sample32_at (a @ b) j = sample32_at a j"
proof -
  have "j * 4 + 3 < length a" using assms by simp
  then have "(a @ b) ! (j * 4) = a ! (j * 4)" "(a @ b) ! (j * 4 + 1) = a ! (j * 4 + 1)" "(a @ b) ! (j * 4 + 2) = a ! (j * 4 + 2)" "(a @ b) ! (j * 4 + 3) = a ! (j * 4 + 3)"
    by (simp_all add: nth_append)
  then show ?thesis by (simp only:)
qed

lemma sample32_append_right:
  assumes "length a = m * 4"
  shows "sample32_at (a @ b) (m + j) = sample32_at b j"
proof -
  have "(m + j) * 4 = length a + (j * 4)" "(m + j) * 4 + 1 = length a + (j * 4 + 1)" "(m + j) * 4 + 2 = length a + (j * 4 + 2)" "(m + j) * 4 + 3 = length a + (j * 4 + 3)"
    using assms by (simp_all add: algebra_simps)
  then have "(a @ b) ! ((m + j) * 4) = b ! (j * 4)" "(a @ b) ! ((m + j) * 4 + 1) = b ! (j * 4 + 1)" "(a @ b) ! ((m + j) * 4 + 2) = b ! (j * 4 + 2)" "(a @ b) ! ((m + j) * 4 + 3) = b ! (j * 4 + 3)"
    by (simp_all only: nth_append_length_plus)
  then show ?thesis by (simp only:)
qed

lemma convert16_append:
  assumes "length a mod 2 = 0"
  shows "\<exists>ca cb. convert16BitToFloat32 a = Some ca \<and> convert16BitToFloat32 b = Some cb \<and>
           convert16BitToFloat32 (a @ b) = Some (ca @ cb)"
proof -
  obtain m where m: "length a = m * 2" using assms by (auto simp: mod_eq_0_iff_dvd)
  let ?F = "\<lambda>s j. of_int (sint (sample16_at s j)) / 32768 :: float32"
  have len: "length (a @ b) div 2 = m + length b div 2" using m by simp
  have la: "m = length a div 2" using m by simp
  have L: "map (?F (a @ b)) [0..<m] = map (?F a) [0..<m]"
  proof (rule map_cong[OF refl])
    fix j assume "j \<in> set [0..<m]"
    then have "j < m" by simp
    from sample16_append_left[OF this m, of b] show "?F (a @ b) j = ?F a j" by (simp only:)
  qed
  have R: "map (\<lambda>j. ?F (a @ b) (m + j)) [0..<length b div 2] = map (?F b) [0..<length b div 2]"
    by (simp only: sample16_append_right[OF m])
  have "convert16BitToFloat32 (a @ b) = Some (map (?F (a @ b)) [0..<m + length b div 2])"
    by (simp only: convert16_decoded len)
  also have "map (?F (a @ b)) [0..<m + length b div 2]
      = map (?F (a @ b)) [0..<m] @ map (\<lambda>j. ?F (a @ b) (m + j)) [0..<length b div 2]"
    by (rule map_upt_split)
  also have "\<dots> = map (?F a) [0..<length a div 2] @ map (?F b) [0..<length b div 2]"
    unfolding L R by (simp only: la)
  finally show ?thesis
    using convert16_decoded[of a] convert16_decoded[of b] by blast
qed

lemma convert24_append:
  assumes "length a mod 3 = 0"
  shows "\<exists>ca cb. convert24BitToFloat32 a = Some ca \<and> convert24BitToFloat32 b = Some cb \<and>
           convert24BitToFloat32 (a @ b) = Some (ca @ cb)"
proof -
  obtain m where m: "length a = m * 3" using assms by (auto simp: mod_eq_0_iff_dvd)
  let ?F = "\<lambda>s j. of_int (sint (sample24_at s j)) / 8388608 :: float32"
  have len: "length (a @ b) div 3 = m + length b div 3" using m by simp
  have la: "m = length a div 3" using m by simp
  have L: "map (?F (a @ b)) [0..<m] = map (?F a) [0..<m]"
  proof (rule map_cong[OF refl])
    fix j assume "j \<in> set [0..<m]"
    then have "j < m" by simp
    from sample24_append_left[OF this m, of b] show "?F (a @ b) j = ?F a j" by (simp only:)
  qed
  have R: "map (\<lambda>j. ?F (a @ b) (m + j)) [0..<length b div 3] = map (?F b) [0..<length b div 3]"
    by (simp only: sample24_append_right[OF m])
  have "convert24BitToFloat32 (a @ b) = Some (map (?F (a @ b)) [0..<m + length b div 3])"
    by (simp only: convert24_decoded len)
  also have "map (?F (a @ b)) [0..<m + length b div 3]
      = map (?F (a @ b)) [0..<m] @ map (\<lambda>j. ?F (a @ b) (m + j)) [0..<length b div 3]"
    by (rule map_upt_split)
  also have "\<dots> = map (?F a) [0..<length a div 3] @ map (?F b) [0..<length b div 3]"
    unfolding L R by (simp only: la)
  finally show ?thesis
    using convert24_decoded[of a] convert24_decoded[of b] by blast
qed

lemma convert32_append:
  assumes "length a mod 4 = 0"
  shows "\<exists>ca cb. convert32BitToFloat32 a = Some ca \<and> convert32BitToFloat32 b = Some cb \<and>
           convert32BitToFloat32 (a @ b) = Some (ca @ cb)"
proof -
  obtain m where m: "length a = m * 4" using assms by (auto simp: mod_eq_0_iff_dvd)
  let ?F = "\<lambda>s j. to_float32 (of_int (sint (sample32_at s j))) / 2147483648 :: float32"
  have len: "length (a @ b) div 4 = m + length b div 4" using m by simp
  have la: "m = length a div 4" using m by simp
  have L: "map (?F (a @ b)) [0..<m] = map (?F a) [0..<m]"
  proof (rule map_cong[OF refl])
    fix j assume "j \<in> set [0..<m]"
    then have "j < m" by simp
    from sample32_append_left[OF this m, of b] show "?F (a @ b) j = ?F a j" by (simp only:)
  qed
  have R: "map (\<lambda>j. ?F (a @ b) (m + j)) [0..<length b div 4] = map (?F b) [0..<length b div 4]"
    by (simp only: sample32_append_right[OF m])
  have "convert32BitToFloat32 (a @ b) = Some (map (?F (a @ b)) [0..<m + length b div 4])"
    by (simp only: convert32_decoded len)
  also have "map (?F (a @ b)) [0..<m + length b div 4]
      = map (?F (a @ b)) [0..<m] @ map (\<lambda>j. ?F (a @ b) (m + j)) [0..<length b div 4]"
    by (rule map_upt_split)
  also have "\<dots> = map (?F a) [0..<length a div 4] @ map (?F b) [0..<length b div 4]"
    unfolding L R by (simp only: la)
  finally show ?thesis
    using convert32_decoded[of a] convert32_decoded[of b] by blast
qed

text \<open>
  Claim C10. For each supported bit depth and buffers \<open>a\<close> and \<open>b\<close>, the length of \<open>a\<close> a
  multiple of the sample width, the channel decoded from \<open>a @ b\<close> is the channel decoded
  from \<open>a\<close> followed by the channel decoded from \<open>b\<close>.
\<close>

theorem ConvertToFloat32_append:
  assumes "bitDepth = 16 \<or> bitDepth = 24 \<or> bitDepth = 32"
    and "length a mod nat (bitDepth div 8) = 0"
  shows "\<exists>ca cb. ConvertToFloat32 a bitDepth = Some (Inr [ca]) \<and>
           ConvertToFloat32 b bitDepth = Some (Inr [cb]) \<and>
           ConvertToFloat32 (a @ b) bitDepth = Some (Inr [ca @ cb])"
proof -
  consider "bitDepth = 16" | "bitDepth = 24" | "bitDepth = 32" using assms(1) by blast
  then show ?thesis
  proof cases
    case 1
    with assms(2) have "length a mod 2 = 0" by simp
    from convert16_append[OF this, of b] 1 show ?thesis
      by (auto simp add: ConvertToFloat32_def)
  next
    case 2
    with assms(2) have "length a mod 3 = 0" by simp
    from convert24_append[OF this, of b] 2 show ?thesis
      by (auto simp add: ConvertToFloat32_def)
  next
    case 3
    with assms(2) have "length a mod 4 = 0" by simp
    from convert32_append[OF this, of b] 3 show ?thesis
      by (auto simp add: ConvertToFloat32_def)
  qed
qed

text \<open>Three bytes followed by four, at depth 24.\<close>

theorem ConvertToFloat32_append_witness:
  "((24 :: int) = 16 \<or> (24 :: int) = 24 \<or> (24 :: int) = 32) \<and>
   length [0xFF, 0xFF, 0x7F :: byte] mod nat (24 div 8) = 0 \<and>
   ConvertToFloat32 ([0xFF, 0xFF, 0x7F] @ [0x00, 0x00, 0x80, 0x01]) 24
     = Some (Inr [[8388607 / 8388608] @ [- 1]])"
proof -
  have "ConvertToFloat32 [0x00, 0x00, 0x80, 0x01] 24 = Some (Inr [[- 1]])" by code_simp
  then show ?thesis
    using ConvertToFloat32_append[of 24 "[0xFF, 0xFF, 0x7F]" "[0x00, 0x00, 0x80, 0x01]"]
    by (simp add: ex24_max)
qed

section \<open>Processing one buffer: the claims\<close>

text \<open>One call on the two bytes \<open>01 02\<close>, evaluated.\<close>

lemma example_convert: "ConvertToFloat32 [1, 2] 16 = Some (Inr [[513 / 32768]])"
  by code_simp

lemma example_run:
  "ProcessData example_env [1, 2] 42 ''mic'' example_world =
     Some (None, \<lparr>clock = 112, birdnet = (),
             ResultsQueue = [\<lparr>StartTime = 42, ElapsedTime = 12, PCMdata = [1, 2], Results = [], Source = ''mic''\<rparr>],
             log_lines = []\<rparr>)"
  by code_simp

text \<open>
  Claim C1. The dispatch queue is a buffered channel, of capacity at least one. When
  decoding and inference succeed, \<^verbatim>\<open>ProcessData\<close> returns \<^verbatim>\<open>nil\<close> in either case of the
  \<^verbatim>\<open>select\<close> (a result exists: the call does not wait). With the channel at capacity
  the message is dropped, the channel keeps its contents and exactly one line,
  \<^verbatim>\<open>Queue is full!\<close>, is logged; with room left the message, carrying the detections, is
  appended to the channel and nothing is logged.
\<close>

theorem ProcessData_dispatch:
  assumes "ConvertToFloat32 data (BitDepth env) = Some (Inr sampleData)"
    and "Predict env (birdnet w) sampleData = (Inr results, bn')"
    and "0 < queue_cap env"
  shows "\<exists>w'. ProcessData env data startTime source w = Some (None, w') \<and>
           (queue_cap env \<le> length (ResultsQueue w) \<longrightarrow>
              ResultsQueue w' = ResultsQueue w \<and> log_lines w' = log_lines w @ [''Queue is full!'']) \<and>
           (length (ResultsQueue w) < queue_cap env \<longrightarrow>
              (\<exists>m. ResultsQueue w' = ResultsQueue w @ [m] \<and> Results m = results) \<and>
              log_lines w' = log_lines w)"
  using assms by (simp add: ProcessData_def Let_def)

text \<open>A channel of capacity one: the first call enqueues, the second one sheds.\<close>

theorem ProcessData_dispatch_witness:
  "ConvertToFloat32 [1, 2] (BitDepth example_env) = Some (Inr [[513 / 32768]]) \<and>
   Predict example_env (birdnet example_world) [[513 / 32768]] = (Inr [], ()) \<and>
   0 < queue_cap example_env \<and>
   length (ResultsQueue example_world) < queue_cap example_env \<and>
   (\<exists>w'. ProcessData example_env [1, 2] 42 ''mic'' example_world = Some (None, w') \<and>
         length (ResultsQueue w') = 1 \<and> log_lines w' = [] \<and>
         queue_cap example_env \<le> length (ResultsQueue w') \<and>
         (\<exists>w''. ProcessData example_env [1, 2] 43 ''mic'' w' = Some (None, w'') \<and>
                ResultsQueue w'' = ResultsQueue w' \<and> log_lines w'' = [''Queue is full!'']))"
proof -
  have c: "ConvertToFloat32 [1, 2] (BitDepth example_env) = Some (Inr [[513 / 32768]])"
    by (simp add: example_env_def example_convert)
  have p: "Predict example_env (birdnet w) [[513 / 32768]] = (Inr [], ())" for w :: "unit world"
    by (simp add: example_env_def silent_engine_def)
  have q: "length (ResultsQueue example_world) < queue_cap example_env"
    by (simp add: example_env_def example_world_def)
  have b: "0 < queue_cap example_env"
    by (simp add: example_env_def)
  from ProcessData_dispatch[where w = example_world and startTime = 42 and source = "''mic''", OF c p b] q
  obtain w' where w': "ProcessData example_env [1, 2] 42 ''mic'' example_world = Some (None, w')"
    "\<exists>m. ResultsQueue w' = ResultsQueue example_world @ [m]" "log_lines w' = log_lines example_world"
    by auto
  then have full: "length (ResultsQueue w') = 1" "log_lines w' = []" "queue_cap example_env \<le> length (ResultsQueue w')"
    by (auto simp add: example_world_def example_env_def)
  from ProcessData_dispatch[where w = w' and startTime = 43 and source = "''mic''", OF c p b] full
  obtain w'' where "ProcessData example_env [1, 2] 43 ''mic'' w' = Some (None, w'')"
    "ResultsQueue w'' = ResultsQueue w'" "log_lines w'' = [''Queue is full!'']"
    by auto
  with c p b q w'(1) full show ?thesis by blast
qed

text \<open>
  Claim C5. When decoding succeeds and \<^verbatim>\<open>Predict\<close> fails with \<open>err\<close>, \<^verbatim>\<open>ProcessData\<close>
  returns an error that wraps \<open>err\<close>; the channel and the log are left as they were, so
  no message is sent.
\<close>

theorem ProcessData_inference_error:
  assumes "ConvertToFloat32 data (BitDepth env) = Some (Inr sampleData)"
    and "Predict env (birdnet w) sampleData = (Inl err, bn')"
  shows "\<exists>w'. ProcessData env data startTime source w =
                 Some (Some (fmt_Errorf ''error predicting species: %w'' [] err), w') \<and>
              ResultsQueue w' = ResultsQueue w \<and> log_lines w' = log_lines w"
  using assms by (simp add: ProcessData_def Let_def)

text \<open>The failing engine on two bytes.\<close>

theorem ProcessData_inference_error_witness:
  "ConvertToFloat32 [1, 2] (BitDepth (example_env\<lparr>Predict := failing_engine\<rparr>)) = Some (Inr [[513 / 32768]]) \<and>
   Predict (example_env\<lparr>Predict := failing_engine\<rparr>) (birdnet example_world) [[513 / 32768]]
     = (Inl (errors_New ''inference failed''), ()) \<and>
   (\<exists>w'. ProcessData (example_env\<lparr>Predict := failing_engine\<rparr>) [1, 2] 42 ''mic'' example_world =
           Some (Some (fmt_Errorf ''error predicting species: %w'' [] (errors_New ''inference failed'')), w') \<and>
         ResultsQueue w' = [] \<and> log_lines w' = [])"
proof -
  have c: "ConvertToFloat32 [1, 2] (BitDepth (example_env\<lparr>Predict := failing_engine\<rparr>))
             = Some (Inr [[513 / 32768]])"
    by (simp add: example_env_def example_convert)
  have p: "Predict (example_env\<lparr>Predict := failing_engine\<rparr>) (birdnet example_world) [[513 / 32768]]
     = (Inl (errors_New ''inference failed''), ())"
    by (simp add: example_env_def failing_engine_def)
  show ?thesis
    using ProcessData_inference_error[where startTime = 42 and source = "''mic''", OF c p] c p
    by (simp add: example_world_def)
qed

text \<open>
  Claim C6. For a bit depth other than 16, 24 and 32, \<^verbatim>\<open>ConvertToFloat32\<close> returns the
  error \<^verbatim>\<open>unsupported audio bit depth\<close> and no samples, and \<^verbatim>\<open>ProcessData\<close> returns
  that error wrapped. Only the clock has moved on: the engine, the channel and the log
  are untouched, and the result does not depend on \<^verbatim>\<open>Predict\<close>.
\<close>

theorem unsupported_bit_depth:
  assumes "bitDepth \<noteq> 16" "bitDepth \<noteq> 24" "bitDepth \<noteq> 32"
  shows "ConvertToFloat32 sample bitDepth = Some (Inl (errors_New ''unsupported audio bit depth'')) \<and>
         (BitDepth env = bitDepth \<longrightarrow>
            ProcessData env data startTime source w =
              Some (Some (fmt_Errorf ''error converting %v bit PCM data to float32: %w'' [bitDepth]
                            (errors_New ''unsupported audio bit depth'')),
                    w\<lparr>clock := clock w + int (convert_time env)\<rparr>))"
  using assms by (simp add: ProcessData_def ConvertToFloat32_def Let_def)

text \<open>Bit depth 8.\<close>

theorem unsupported_bit_depth_witness:
  "(8 :: int) \<noteq> 16 \<and> (8 :: int) \<noteq> 24 \<and> (8 :: int) \<noteq> 32 \<and>
   ConvertToFloat32 [1, 2] 8 = Some (Inl (errors_New ''unsupported audio bit depth'')) \<and>
   BitDepth (example_env\<lparr>BitDepth := 8\<rparr>) = 8 \<and>
   ProcessData (example_env\<lparr>BitDepth := 8\<rparr>) [1, 2] 42 ''mic'' example_world =
     Some (Some (fmt_Errorf ''error converting %v bit PCM data to float32: %w'' [8]
                   (errors_New ''unsupported audio bit depth'')),
           example_world\<lparr>clock := 105\<rparr>)"
  using unsupported_bit_depth[where bitDepth = 8 and sample = "[1, 2]" and env = "example_env\<lparr>BitDepth := 8\<rparr>"
      and data = "[1, 2]" and startTime = 42 and source = "''mic''" and w = example_world]
  by (simp add: example_env_def example_world_def)

text \<open>
  Claim C7 says that the recorded duration covers the inference call only, the clock
  being read after decoding. \<^verbatim>\<open>ProcessData\<close> reads the clock in its first statement,
  before \<^verbatim>\<open>ConvertToFloat32\<close> runs: with five units spent decoding and seven spent in
  \<^verbatim>\<open>Predict\<close> the message records twelve.
\<close>

theorem elapsed_time_counterexample:
  "ProcessData example_env [1, 2] 42 ''mic'' example_world =
     Some (None, \<lparr>clock = 112, birdnet = (),
             ResultsQueue = [\<lparr>StartTime = 42, ElapsedTime = 12, PCMdata = [1, 2], Results = [], Source = ''mic''\<rparr>],
             log_lines = []\<rparr>) \<and>
   int (convert_time example_env) = 5 \<and> int (predict_time example_env) = 7 \<and>
   (12 :: int) \<noteq> int (predict_time example_env)"
  by (simp add: example_run) (simp add: example_env_def)

text \<open>
  Claim C7, amended. In a successful call whose message is enqueued, the recorded
  duration runs from the entry of \<^verbatim>\<open>ProcessData\<close>, before decoding, to the return of
  \<^verbatim>\<open>Predict\<close>: it is the time spent decoding plus the time spent in the inference call.
\<close>

theorem elapsed_time_spans_decoding_and_inference:
  assumes "ConvertToFloat32 data (BitDepth env) = Some (Inr sampleData)"
    and "Predict env (birdnet w) sampleData = (Inr results, bn')"
    and "length (ResultsQueue w) < queue_cap env"
  shows "\<exists>w' m. ProcessData env data startTime source w = Some (None, w') \<and>
             ResultsQueue w' = ResultsQueue w @ [m] \<and>
             ElapsedTime m = int (convert_time env) + int (predict_time env)"
  using assms by (simp add: ProcessData_def Let_def logProcessingTime_def)

text \<open>Five units of decoding and seven of inference.\<close>

theorem elapsed_time_spans_decoding_and_inference_witness:
  "ConvertToFloat32 [1, 2] (BitDepth example_env) = Some (Inr [[513 / 32768]]) \<and>
   Predict example_env (birdnet example_world) [[513 / 32768]] = (Inr [], ()) \<and>
   length (ResultsQueue example_world) < queue_cap example_env \<and>
   (\<exists>w' m. ProcessData example_env [1, 2] 42 ''mic'' example_world = Some (None, w') \<and>
        ResultsQueue w' = [m] \<and> ElapsedTime m = 12)"
proof -
  have c: "ConvertToFloat32 [1, 2] (BitDepth example_env) = Some (Inr [[513 / 32768]])"
    by (simp add: example_env_def example_convert)
  have p: "Predict example_env (birdnet example_world) [[513 / 32768]] = (Inr [], ())"
    by (simp add: example_env_def silent_engine_def)
  have q: "length (ResultsQueue example_world) < queue_cap example_env"
    by (simp add: example_env_def example_world_def)
  show ?thesis
    using elapsed_time_spans_decoding_and_inference[where startTime = 42 and source = "''mic''", OF c p q] c p q
    by (simp add: example_env_def example_world_def)
qed

text \<open>
  Claim C9. In a successful call the message put on the channel carries the raw bytes
  that were passed in (not the decoded samples), the caller's start time and the
  caller's source name, all unchanged; with the channel at capacity nothing is put on it.
\<close>

theorem envelope_carries_input:
  assumes "ConvertToFloat32 data (BitDepth env) = Some (Inr sampleData)"
    and "Predict env (birdnet w) sampleData = (Inr results, bn')"
  shows "\<exists>w'. ProcessData env data startTime source w = Some (None, w') \<and>
           (length (ResultsQueue w) < queue_cap env \<longrightarrow>
              (\<exists>m. ResultsQueue w' = ResultsQueue w @ [m] \<and>
                   PCMdata m = data \<and> StartTime m = startTime \<and> Source m = source)) \<and>
           (queue_cap env \<le> length (ResultsQueue w) \<longrightarrow> ResultsQueue w' = ResultsQueue w)"
  using assms by (simp add: ProcessData_def Let_def)

text \<open>The first call on an empty channel of capacity one, and a second call on the full one.\<close>

theorem envelope_carries_input_witness:
  "ConvertToFloat32 [1, 2] (BitDepth example_env) = Some (Inr [[513 / 32768]]) \<and>
   Predict example_env (birdnet example_world) [[513 / 32768]] = (Inr [], ()) \<and>
   length (ResultsQueue example_world) < queue_cap example_env \<and>
   (\<exists>w' m. ProcessData example_env [1, 2] 42 ''mic'' example_world = Some (None, w') \<and>
        ResultsQueue w' = [m] \<and> PCMdata m = [1, 2] \<and> StartTime m = 42 \<and> Source m = ''mic'' \<and>
        queue_cap example_env \<le> length (ResultsQueue w') \<and>
        (\<exists>w''. ProcessData example_env [1, 2] 43 ''mic'' w' = Some (None, w'') \<and>
               ResultsQueue w'' = [m]))"
proof -
  have c: "ConvertToFloat32 [1, 2] (BitDepth example_env) = Some (Inr [[513 / 32768]])"
    by (simp add: example_env_def example_convert)
  have p: "Predict example_env (birdnet w) [[513 / 32768]] = (Inr [], ())" for w :: "unit world"
    by (simp add: example_env_def silent_engine_def)
  have q: "length (ResultsQueue example_world) < queue_cap example_env"
    by (simp add: example_env_def example_world_def)
  from envelope_carries_input[where w = example_world and startTime = 42 and source = "''mic''", OF c p] q
  obtain w' m where w': "ProcessData example_env [1, 2] 42 ''mic'' example_world = Some (None, w')"
    "ResultsQueue w' = ResultsQueue example_world @ [m]"
    "PCMdata m = [1, 2]" "StartTime m = 42" "Source m = ''mic''"
    by auto
  then have full: "ResultsQueue w' = [m]" "queue_cap example_env \<le> length (ResultsQueue w')"
    by (auto simp add: example_world_def example_env_def)
  from envelope_carries_input[where w = w' and startTime = 43 and source = "''mic''", OF c p] full
  obtain w'' where "ProcessData example_env [1, 2] 43 ''mic'' w' = Some (None, w'')"
    "ResultsQueue w'' = [m]"
    by auto
  with c p q w' full show ?thesis by blast
qed

end
